theory Spec2Isabelle
  imports Main "HOL-Library.Sublist"
begin

section \<open>Text primitives of the Python runtime\<close>

text \<open>
  A Python \<open>str\<close> is modelled as a \<open>string\<close>: each \<open>char\<close> stands for the code point
  with the same number (0 to 255). \<open>is_space\<close> is \<open>str.isspace\<close> on one character, which
  is also what the regular-expression class \<open>\s\<close> accepts on a \<open>str\<close> pattern: the code
  points 9 to 13, 28 to 32, 133 and 160.
\<close>

definition is_space :: "char \<Rightarrow> bool" where
  "is_space c \<longleftrightarrow> of_char c \<in> {9, 10, 11, 12, 13, 28, 29, 30, 31, 32, 133, 160 :: nat}"

text \<open>\<open>s.strip()\<close>: leading and trailing whitespace removed.\<close>

definition strip :: "string \<Rightarrow> string" where
  "strip s = rev (dropWhile is_space (rev (dropWhile is_space s)))"

text \<open>\<open>s.find(sub)\<close>: the lowest index at which \<open>sub\<close> occurs in \<open>s\<close>, or \<open>-1\<close>.\<close>

fun str_find :: "string \<Rightarrow> string \<Rightarrow> int" where
  "str_find sub [] = (if sub = [] then 0 else - 1)"
| "str_find sub (c # cs) =
     (if prefix sub (c # cs) then 0
      else (let r = str_find sub cs in if r = - 1 then - 1 else r + 1))"

text \<open>
  \<open>s.replace(old, new)\<close>: every non-overlapping occurrence of \<open>old\<close>, found from left
  to right, is replaced; an empty \<open>old\<close> inserts \<open>new\<close> before every character and at
  the end.
\<close>

function str_replace :: "string \<Rightarrow> string \<Rightarrow> string \<Rightarrow> string" where
  "str_replace old new s =
     (if old = [] then concat (map (\<lambda>c. new @ [c]) s) @ new
      else if prefix old s then new @ str_replace old new (drop (length old) s)
      else (case s of [] \<Rightarrow> [] | c # cs \<Rightarrow> c # str_replace old new cs))"
  by pat_completeness auto
termination
  by (relation "measure (\<lambda>(old, new, s). length s)") (auto simp: prefix_def)

declare str_replace.simps [simp del]

text \<open>\<open>name.endswith(suffix)\<close>.\<close>

definition endswith :: "string \<Rightarrow> string \<Rightarrow> bool" where
  "endswith name sfx \<longleftrightarrow> suffix sfx name"

text \<open>
  \<open>open(path, "r").read()\<close> reads in text mode with universal newlines: the text
  returned is the content of the file with every line end \<open>CR LF\<close> and every remaining
  \<open>CR\<close> turned into \<open>LF\<close>. (Writing in text mode turns \<open>LF\<close> into the line separator of
  the system, which is \<open>LF\<close> itself on the systems considered here, so a write stores the
  text as it is.)
\<close>

definition cr :: char where "cr = CHR 0x0D"
definition lf :: char where "lf = CHR 0x0A"

fun read_text :: "string \<Rightarrow> string" where
  "read_text [] = []"
| "read_text [c] = [if c = cr then lf else c]"
| "read_text (c # d # cs) =
     (if c = cr then (if d = lf then lf # read_text cs else lf # read_text (d # cs))
      else c # read_text (d # cs))"

section \<open>The regular expressions of the two scripts\<close>

text \<open>
  The patterns of both scripts are sequences of: a literal text, one character of a
  class, an optional character of a class (\<open>?\<close>), a greedy repetition of a class
  (\<open>*\<close>, \<open>+\<close>), and a capturing group around one of these. \<open>match_here\<close> is the
  backtracking matcher of Python's \<open>re\<close> on such a sequence: each repetition first takes
  the longest run it can and gives characters back one at a time while the rest of the
  pattern fails. The result lists the text consumed by each element of the pattern.
\<close>

datatype rx =
    Lit string
  | One "char \<Rightarrow> bool"
  | Opt "char \<Rightarrow> bool"
  | Star "char \<Rightarrow> bool"
  | Plus "char \<Rightarrow> bool"
  | Group rx

fun greedy :: "(string \<Rightarrow> string list option) \<Rightarrow> string \<Rightarrow> nat \<Rightarrow> nat \<Rightarrow> string list option" where
  "greedy k s lo 0 =
     (if 0 < lo then None else map_option (Cons []) (k s))"
| "greedy k s lo (Suc n) =
     (if Suc n < lo then None
      else (case k (drop (Suc n) s) of
              Some segs \<Rightarrow> Some (take (Suc n) s # segs)
            | None \<Rightarrow> greedy k s lo n))"

fun match_atom :: "rx \<Rightarrow> (string \<Rightarrow> string list option) \<Rightarrow> string \<Rightarrow> string list option" where
  "match_atom (Lit w) k s =
     (if prefix w s then map_option (Cons w) (k (drop (length w) s)) else None)"
| "match_atom (One c) k s =
     (case s of [] \<Rightarrow> None
      | x # xs \<Rightarrow> if c x then map_option (Cons [x]) (k xs) else None)"
| "match_atom (Opt c) k s = greedy k s 0 (length (takeWhile c (take 1 s)))"
| "match_atom (Star c) k s = greedy k s 0 (length (takeWhile c s))"
| "match_atom (Plus c) k s = greedy k s 1 (length (takeWhile c s))"
| "match_atom (Group r) k s = match_atom r k s"

primrec match_here :: "rx list \<Rightarrow> string \<Rightarrow> string list option" where
  "match_here [] s = Some []"
| "match_here (r # rs) s = match_atom r (match_here rs) s"

text \<open>
  \<open>finditer\<close>: the matches in the text from left to right, none overlapping an earlier
  one. After a match of \<open>n\<close> characters the next \<open>n - 1\<close> positions are skipped. (The
  patterns below contain a literal, so no match is empty.)
\<close>

fun finditer_skip :: "rx list \<Rightarrow> nat \<Rightarrow> string \<Rightarrow> string list list" where
  "finditer_skip p skip [] =
     (if skip = 0 then (case match_here p [] of Some segs \<Rightarrow> [segs] | None \<Rightarrow> []) else [])"
| "finditer_skip p skip (c # cs) =
     (if 0 < skip then finditer_skip p (skip - 1) cs
      else (case match_here p (c # cs) of
              None \<Rightarrow> finditer_skip p 0 cs
            | Some segs \<Rightarrow> segs # finditer_skip p (length (concat segs) - 1) cs))"

definition finditer :: "rx list \<Rightarrow> string \<Rightarrow> string list list" where
  "finditer p s = finditer_skip p 0 s"


text \<open>\<open>m.group(0)\<close> is the whole matched text, \<open>m.group(i)\<close> the text of the i-th group.\<close>

fun is_group :: "rx \<Rightarrow> bool" where
  "is_group (Group r) = True"
| "is_group r = False"

definition groups :: "rx list \<Rightarrow> string list \<Rightarrow> string list" where
  "groups p segs = map snd (filter (\<lambda>(r, seg). is_group r) (zip p segs))"

definition group0 :: "string list \<Rightarrow> string" where
  "group0 segs = concat segs"

text \<open>\<open>pattern.findall(s)\<close> for a pattern with two groups: the pairs of group texts.\<close>

definition findall :: "rx list \<Rightarrow> string \<Rightarrow> (string \<times> string) list" where
  "findall p s = map (\<lambda>segs. (groups p segs ! 0, groups p segs ! 1)) (finditer p s)"

definition sq :: char where "sq = CHR 0x27"
definition dq :: char where "dq = CHR 0x22"

definition quote :: "char \<Rightarrow> bool" where
  "quote c \<longleftrightarrow> c = sq \<or> c = dq"

definition not_quote :: "char \<Rightarrow> bool" where
  "not_quote c \<longleftrightarrow> \<not> quote c"

text \<open>
  The scanner's pattern, \<open>source\s*\(\s*['"](NAME)['"]?\s*,\s*['"]([^'"]+)['"]?\s*\)\<close>,
  where \<open>NAME\<close> is \<open>re.escape(source_name)\<close>, which matches the name literally.
\<close>

definition scanner_pattern :: "string \<Rightarrow> rx list" where
  "scanner_pattern source_name =
     [Lit ''source'', Star is_space, Lit ''('', Star is_space,
      One quote, Group (Lit source_name), Opt quote, Star is_space,
      Lit '','', Star is_space,
      One quote, Group (Plus not_quote), Opt quote, Star is_space,
      Lit '')'']"

text \<open>
  The rewriter's pattern,
  \<open>{{\s*source\s*\(\s*(?:"?'?([^"']+)"?'?\s*,\s*"?'?([^"']+)"?'?)\s*\)\s*}}\<close>
  (compiled with \<open>re.DOTALL\<close>, which changes nothing as the pattern has no dot), and the
  pattern \<open>{{\s*source\s*\(\<close> that selects the files to rewrite.
\<close>

definition rewriter_pattern :: "rx list" where
  "rewriter_pattern =
     [Lit ''{{'', Star is_space, Lit ''source'', Star is_space, Lit ''('', Star is_space,
      Opt (\<lambda>c. c = dq), Opt (\<lambda>c. c = sq), Group (Plus not_quote),
      Opt (\<lambda>c. c = dq), Opt (\<lambda>c. c = sq), Star is_space,
      Lit '','', Star is_space,
      Opt (\<lambda>c. c = dq), Opt (\<lambda>c. c = sq), Group (Plus not_quote),
      Opt (\<lambda>c. c = dq), Opt (\<lambda>c. c = sq), Star is_space,
      Lit '')'', Star is_space, Lit ''}}'']"


section \<open>The file system\<close>

text \<open>
  A path is the list of its components; \<open>os.path.join(root, name)\<close> appends a
  component and \<open>os.path.dirname\<close> drops the last one. A directory holds its text
  files (name and stored content) and its subdirectories (name and tree), in the order the
  system lists them.
\<close>

type_synonym path = "string list"

datatype tree = Dir (dir_files: "(string \<times> string) list") (dir_subdirs: "(string \<times> tree) list")

text \<open>
  \<open>os.walk(dirpath)\<close>, top-down: it yields a directory with the names of its
  subdirectories and files, lets the loop body edit the list of subdirectory names in
  place (\<open>edit\<close>), and then walks into the names that remain, in order. A name that is
  no subdirectory yields nothing.
\<close>

function os_walk ::
  "(string list \<Rightarrow> string list) \<Rightarrow> path \<Rightarrow> tree \<Rightarrow> (path \<times> (string \<times> string) list) list" where
  "os_walk edit dirpath (Dir fs ds) =
     (dirpath, fs) #
     concat (map (\<lambda>d. case map_of ds d of
                          None \<Rightarrow> []
                        | Some t \<Rightarrow> os_walk edit (dirpath @ [d]) t)
                 (edit (map fst ds)))"
  by pat_completeness auto
termination
proof (relation "measure (\<lambda>(edit, dirpath, t). size t)")
  show "wf (measure (\<lambda>(edit, dirpath, t). size t))"
    by simp
next
  fix edit :: "string list \<Rightarrow> string list" and dirpath :: path
    and fs :: "(string \<times> string) list" and ds :: "(string \<times> tree) list" and d t
  assume "d \<in> set (edit (map fst ds))" and sub: "map_of ds d = Some t"
  have "size t < Suc (size_list (size_prod (\<lambda>x. 0) size) ds)"
    using sub by (induction ds) (auto split: if_splits)
  then show "((edit, dirpath @ [d], t), (edit, dirpath, Dir fs ds))
             \<in> measure (\<lambda>(edit, dirpath, t). size t)"
    by simp
qed

text \<open>What the programs read and change: the stored content of the text files by path,
  the files opened for writing (in order), the external commands run (in order) and the
  log.\<close>

datatype event =
    Created path
  | Could_not_extract string
  | Generated_total nat
  | Processed path
  | Processed_total nat

record world =
  files :: "path \<rightharpoonup> string"
  written :: "path list"
  commands :: "string list"
  log :: "event list"


section \<open>dbt_generate_source_models.py\<close>

subsection \<open>get_sources_used_with_source_func\<close>

text \<open>
  \<open>used_sources\<close> is a \<open>defaultdict(set)\<close>: table names in the order they were first
  seen, each with the set of files that use it.
\<close>

type_synonym used_sources = "(string \<times> path set) list"

definition used_add :: "used_sources \<Rightarrow> string \<Rightarrow> path \<Rightarrow> used_sources" where
  "used_add used k v =
     (if k \<in> fst ` set used
      then map (\<lambda>(k', vs). if k' = k then (k', insert v vs) else (k', vs)) used
      else used @ [(k, {v})])"

definition scan_content :: "string \<Rightarrow> path \<Rightarrow> string \<Rightarrow> used_sources \<Rightarrow> used_sources" where
  "scan_content source_name file_path content used =
     fold (\<lambda>match u. if fst match = source_name then used_add u (snd match) file_path else u)
          (findall (scanner_pattern source_name) content) used"

definition drop_sources :: "string list \<Rightarrow> string list" where
  "drop_sources dirs = (if ''sources'' \<in> set dirs then remove1 ''sources'' dirs else dirs)"

definition get_sources_used_with_source_func :: "tree \<Rightarrow> path \<Rightarrow> string \<Rightarrow> used_sources" where
  "get_sources_used_with_source_func fs directory source_name =
     fold (\<lambda>(root, files) used.
             fold (\<lambda>(file, content) u.
                     if endswith file ''.sql''
                     then scan_content source_name (root @ [file]) (read_text content) u
                     else u)
                  files used)
          (os_walk drop_sources directory fs) []"

subsection \<open>build_sql_query\<close>

text \<open>
  The external command is a function \<open>run\<close> from the command line to the standard
  output it prints.
\<close>

definition command_line :: "string \<Rightarrow> string \<Rightarrow> string" where
  "command_line source_name table_name =
     ''dbt run-operation generate_base_model --args '{'source_name': '' @ [sq] @ source_name
     @ [sq] @ '', 'table_name': '' @ [sq] @ table_name @ [sq] @ ''}'' @ [sq]"

definition build_sql_query ::
  "(string \<Rightarrow> string) \<Rightarrow> string \<Rightarrow> string \<Rightarrow> world \<Rightarrow> string option \<times> world" where
  "build_sql_query run source_name table_name w =
     (let command = command_line source_name table_name;
          w1 = w\<lparr>commands := commands w @ [command]\<rparr>;
          full_output = run command;
          start_index = str_find ''with source'' full_output
      in if start_index \<noteq> - 1
         then (Some (strip (drop (nat start_index) full_output)), w1)
         else (None, w1\<lparr>log := log w1 @ [Could_not_extract table_name]\<rparr>))"

subsection \<open>generate_source_models_from_yml\<close>








subsection \<open>generate_sql_files_from_used_sources\<close>



section \<open>replace_source_func_with_ref.py\<close>


definition new_ref :: "string \<Rightarrow> string \<Rightarrow> string" where
  "new_ref source_name table_name =
     ''{{ ref('source_'' @ source_name @ ''__'' @ table_name @ [sq] @ '') }}''"

text \<open>The text that \<open>replace_sources_with_refs\<close> writes back for the text it read
  (lines 67 to 77): for each match of the pattern in the text read, in order, every
  occurrence of the matched text in the current text is replaced.\<close>

definition rewrite_content :: "string \<Rightarrow> string" where
  "rewrite_content content =
     fold (\<lambda>match c.
             let source_name = groups rewriter_pattern match ! 0;
                 table_name = groups rewriter_pattern match ! 1
             in str_replace (group0 match) (new_ref source_name table_name) c)
          (finditer rewriter_pattern content) content"




section \<open>What a match looks like\<close>

text \<open>\<open>seg_ok r seg\<close>: the text \<open>seg\<close> is one that the pattern element \<open>r\<close> can
  consume.\<close>

fun seg_ok :: "rx \<Rightarrow> string \<Rightarrow> bool" where
  "seg_ok (Lit w) seg = (seg = w)"
| "seg_ok (One c) seg = (length seg = 1 \<and> list_all c seg)"
| "seg_ok (Opt c) seg = (length seg \<le> 1 \<and> list_all c seg)"
| "seg_ok (Star c) seg = list_all c seg"
| "seg_ok (Plus c) seg = (seg \<noteq> [] \<and> list_all c seg)"
| "seg_ok (Group r) seg = seg_ok r seg"

text \<open>\<open>first_path p segs rest\<close>: on the text \<open>concat segs @ rest\<close> the matcher takes the
  segments \<open>segs\<close> at its first attempt, each repetition stopped by the next character.\<close>

fun atom_first :: "rx \<Rightarrow> string \<Rightarrow> string \<Rightarrow> bool" where
  "atom_first (Lit w) seg after = (seg = w)"
| "atom_first (One c) seg after = (length seg = 1 \<and> list_all c seg)"
| "atom_first (Opt c) seg after =
     ((length seg = 1 \<and> list_all c seg) \<or> (seg = [] \<and> (after = [] \<or> \<not> c (hd after))))"
| "atom_first (Star c) seg after = (list_all c seg \<and> (after = [] \<or> \<not> c (hd after)))"
| "atom_first (Plus c) seg after =
     (seg \<noteq> [] \<and> list_all c seg \<and> (after = [] \<or> \<not> c (hd after)))"
| "atom_first (Group r) seg after = atom_first r seg after"

fun first_path :: "rx list \<Rightarrow> string list \<Rightarrow> string \<Rightarrow> bool" where
  "first_path [] [] rest = True"
| "first_path (a # as) (seg # segs) rest =
     (atom_first a seg (concat segs @ rest) \<and> first_path as segs rest)"
| "first_path as segs rest = False"

section \<open>The words of the specification\<close>







text \<open>In a directory no two files and no two subdirectories have the same name.\<close>

function wf_tree :: "tree \<Rightarrow> bool" where
  "wf_tree (Dir fs ds) =
     (distinct (map fst fs) \<and> distinct (map fst ds) \<and> (\<forall>d t. map_of ds d = Some t \<longrightarrow> wf_tree t))"
  by pat_completeness auto
termination
proof (relation "measure size")
  show "wf (measure (size :: tree \<Rightarrow> nat))"
    by simp
next
  fix fs :: "(string \<times> string) list" and ds :: "(string \<times> tree) list" and d t
  assume sub: "map_of ds d = Some t"
  have "size t < Suc (size_list (size_prod (\<lambda>x. 0) size) ds)"
    using sub by (induction ds) (auto split: if_splits)
  then show "(t, Dir fs ds) \<in> measure size"
    by simp
qed

text \<open>The directory at a relative path, and the content of a file in it.\<close>

fun subtree :: "tree \<Rightarrow> path \<Rightarrow> tree option" where
  "subtree t [] = Some t"
| "subtree (Dir fs ds) (d # rest) =
     (case map_of ds d of None \<Rightarrow> None | Some t \<Rightarrow> subtree t rest)"

definition file_content :: "tree \<Rightarrow> path \<Rightarrow> string \<Rightarrow> string option" where
  "file_content fs dirs file =
     (case subtree fs dirs of None \<Rightarrow> None | Some t \<Rightarrow> map_of (dir_files t) file)"

text \<open>The scanner's result lists a file under a table.\<close>

definition classified :: "used_sources \<Rightarrow> string \<Rightarrow> path \<Rightarrow> bool" where
  "classified used table file_path \<longleftrightarrow> (\<exists>paths. (table, paths) \<in> set used \<and> file_path \<in> paths)"

text \<open>The text of a call of \<open>source\<close> with both arguments in quotes: whitespace
  \<open>w1\<close> to \<open>w5\<close> around the parentheses and the comma, quote characters \<open>q1\<close> to \<open>q4\<close>.\<close>

definition call_text ::
  "string \<Rightarrow> string \<Rightarrow> char \<Rightarrow> string \<Rightarrow> char \<Rightarrow> string \<Rightarrow> string \<Rightarrow> char \<Rightarrow> string \<Rightarrow> char \<Rightarrow> string
   \<Rightarrow> string" where
  "call_text w1 w2 q1 s q2 w3 w4 q3 t q4 w5 =
     ''source'' @ w1 @ ''('' @ w2 @ [q1] @ s @ [q2] @ w3 @ '','' @ w4 @ [q3] @ t @ [q4] @ w5 @ '')''"

text \<open>A text is a call of \<open>source\<close> with arguments \<open>s\<close> and \<open>t\<close> in one of the forms
  the scanner accepts (the closing quotes may be missing).\<close>

definition source_call :: "string \<Rightarrow> string \<Rightarrow> string \<Rightarrow> bool" where
  "source_call s t x \<longleftrightarrow>
     (\<exists>ws1 ws2 q1 o2 ws3 ws4 q3 o4 ws5.
        x = ''source'' @ ws1 @ ''('' @ ws2 @ [q1] @ s @ o2 @ ws3 @ '','' @ ws4 @ [q3] @ t @ o4
            @ ws5 @ '')''
        \<and> list_all is_space ws1 \<and> list_all is_space ws2 \<and> list_all is_space ws3
        \<and> list_all is_space ws4 \<and> list_all is_space ws5
        \<and> quote q1 \<and> quote q3 \<and> length o2 \<le> 1 \<and> list_all quote o2
        \<and> length o4 \<le> 1 \<and> list_all quote o4
        \<and> t \<noteq> [] \<and> list_all not_quote t)"

text \<open>The replacements that the rewrite of a text makes, in order: the matched text and
  the text put in its place.\<close>

definition replacements :: "string \<Rightarrow> (string \<times> string) list" where
  "replacements content =
     map (\<lambda>match. (group0 match,
                    new_ref (groups rewriter_pattern match ! 0) (groups rewriter_pattern match ! 1)))
         (finditer rewriter_pattern content)"


section \<open>Example inputs\<close>


definition example_tree :: tree where
  "example_tree =
     Dir [(''a.sql'', ''select * from {{ source('sup','orders') }} join {{ source('sup','clicks') }}''),
          (''notes.txt'', ''source('sup','ignored')'')]
         [(''sources'', Dir [(''old.sql'', ''select * from {{ source('sup','stale') }}'')] [])]"



definition example_marts :: tree where
  "example_marts =
     Dir [] [(''marts'',
              Dir [(''m.sql'', ''select * from source ( 'sup'' @ [dq] @ '' , '' @ [dq]
                               @ ''orders' ) as o'')] [])]"

section \<open>Properties of the text primitives\<close>

lemma str_find_first:
  "i \<le> length s \<Longrightarrow> prefix sub (drop i s) \<Longrightarrow> \<forall>j<i. \<not> prefix sub (drop j s)
   \<Longrightarrow> str_find sub s = int i"
proof (induction s arbitrary: i)
  case Nil
  then show ?case by simp
next
  case (Cons c cs)
  show ?case
  proof (cases i)
    case 0
    with Cons.prems show ?thesis by simp
  next
    case (Suc i')
    from Cons.prems Suc have no0: "\<not> prefix sub (c # cs)"
      by (metis drop0 zero_less_Suc)
    have "\<forall>j<i'. \<not> prefix sub (drop j cs)"
    proof (intro allI impI)
      fix j assume "j < i'"
      then have "Suc j < i" using Suc by simp
      with Cons.prems(3) have "\<not> prefix sub (drop (Suc j) (c # cs))" by blast
      then show "\<not> prefix sub (drop j cs)" by simp
    qed
    with Cons.IH [of i'] Cons.prems Suc have "str_find sub cs = int i'" by simp
    with no0 Suc show ?thesis by (simp add: Let_def)
  qed
qed

lemma str_find_none:
  "\<forall>j\<le>length s. \<not> prefix sub (drop j s) \<Longrightarrow> str_find sub s = - 1"
proof (induction s)
  case Nil
  then show ?case by auto
next
  case (Cons c cs)
  from Cons.prems have no0: "\<not> prefix sub (c # cs)"
    by (metis drop0 le0)
  have "\<forall>j\<le>length cs. \<not> prefix sub (drop j cs)"
  proof (intro allI impI)
    fix j assume "j \<le> length cs"
    then have "Suc j \<le> length (c # cs)" by simp
    with Cons.prems have "\<not> prefix sub (drop (Suc j) (c # cs))" by blast
    then show "\<not> prefix sub (drop j cs)" by simp
  qed
  with Cons.IH have "str_find sub cs = - 1" by simp
  with no0 show ?case by (simp add: Let_def)
qed

lemma strip_keeps_prefix:
  assumes "m \<noteq> []" "\<not> is_space (hd m)" "\<not> is_space (last m)"
  shows "prefix m (strip (m @ r))"
proof -
  from assms have d1: "dropWhile is_space (m @ r) = m @ r"
    by (cases m) auto
  have "prefix m (rev (dropWhile is_space (rev r @ rev m)))"
  proof (cases "\<forall>x\<in>set (rev r). is_space x")
    case True
    then have "dropWhile is_space (rev r @ rev m) = dropWhile is_space (rev m)"
      by (simp add: dropWhile_append)
    also have "\<dots> = rev m"
      using assms by (cases m rule: rev_cases) auto
    finally show ?thesis by simp
  next
    case False
    then have "dropWhile is_space (rev r @ rev m) = dropWhile is_space (rev r) @ rev m"
      by (auto simp: dropWhile_append)
    then show ?thesis by simp
  qed
  with d1 show ?thesis by (simp add: strip_def)
qed




section \<open>Properties of the matcher\<close>

lemma greedy_sound:
  "greedy k s lo n = Some r \<Longrightarrow>
   \<exists>m segs. lo \<le> m \<and> m \<le> n \<and> r = take m s # segs \<and> k (drop m s) = Some segs"
proof (induction n)
  case 0
  then show ?case by (auto split: if_splits)
next
  case (Suc n)
  show ?case
  proof (cases "k (drop (Suc n) s)")
    case None
    with Suc.prems have "greedy k s lo n = Some r" by (simp split: if_splits)
    from Suc.IH [OF this] obtain m segs where
      "lo \<le> m" "m \<le> n" "r = take m s # segs" "k (drop m s) = Some segs" by blast
    then have "lo \<le> m \<and> m \<le> Suc n \<and> r = take m s # segs \<and> k (drop m s) = Some segs"
      by simp
    then show ?thesis by blast
  next
    case (Some segs)
    with Suc.prems have "lo \<le> Suc n \<and> Suc n \<le> Suc n \<and> r = take (Suc n) s # segs
        \<and> k (drop (Suc n) s) = Some segs"
      by (simp split: if_splits)
    then show ?thesis by blast
  qed
qed

lemma take_run: 
  assumes le: "m \<le> length (takeWhile c s)"
  shows "list_all c (take m s)"
proof -
  have "take m (takeWhile c s @ dropWhile c s) = take m (takeWhile c s)"
    using le by (simp del: takeWhile_dropWhile_id)
  then have "take m s = take m (takeWhile c s)" by simp
  then have "set (take m s) \<subseteq> set (takeWhile c s)" by (metis set_take_subset)
  then show ?thesis by (auto simp: list_all_iff dest: set_takeWhileD)
qed

lemma seg_take:
  assumes "m \<le> length s" "k (drop m s) = Some segs" "P (take m s)"
  shows "\<exists>seg segs'. take m s # segs = seg # segs' \<and> P seg \<and> s = seg @ drop (length seg) s
      \<and> length seg \<le> length s \<and> k (drop (length seg) s) = Some segs'"
proof -
  from assms(1) have l: "length (take m s) = m" by simp
  have "take m s # segs = take m s # segs \<and> P (take m s)
      \<and> s = take m s @ drop (length (take m s)) s
      \<and> length (take m s) \<le> length s \<and> k (drop (length (take m s)) s) = Some segs"
    using assms by (simp only: l) simp
  then show ?thesis by blast
qed

lemma match_atom_sound:
  "match_atom a k s = Some r \<Longrightarrow>
   \<exists>seg segs. r = seg # segs \<and> seg_ok a seg \<and> s = seg @ drop (length seg) s
      \<and> length seg \<le> length s \<and> k (drop (length seg) s) = Some segs"
proof (induction a k s rule: match_atom.induct)
  case (1 w k s)
  then show ?case by (auto simp: prefix_def split: if_splits)
next
  case (2 c k s)
  then show ?case by (cases s) (auto split: if_splits)
next
  case (3 c k s)
  then obtain m segs where m: "m \<le> length (takeWhile c (take 1 s))"
      "r = take m s # segs" "k (drop m s) = Some segs"
    by (auto dest: greedy_sound)
  have "length (takeWhile c (take 1 s)) \<le> length (take 1 s)"
    by (rule length_takeWhile_le)
  with m have m1: "m \<le> 1" and ms: "m \<le> length s" by simp_all
  have "length (takeWhile c (take 1 s)) \<le> length (takeWhile c s)"
    by (cases s) auto
  with m have "list_all c (take m s)" by (auto intro: take_run)
  with m1 ms have "seg_ok (Opt c) (take m s)" by simp
  from seg_take [of m s k segs "seg_ok (Opt c)", OF ms m(3) this] m(2)
  show ?case by simp
next
  case (4 c k s)
  then obtain m segs where m: "m \<le> length (takeWhile c s)"
      "r = take m s # segs" "k (drop m s) = Some segs"
    by (auto dest: greedy_sound)
  have ms: "m \<le> length s" using m(1) length_takeWhile_le [of c s] by simp
  from m have "seg_ok (Star c) (take m s)" by (auto intro: take_run)
  from seg_take [of m s k segs "seg_ok (Star c)", OF ms m(3) this] m(2)
  show ?case by simp
next
  case (5 c k s)
  then obtain m segs where m: "1 \<le> m" "m \<le> length (takeWhile c s)"
      "r = take m s # segs" "k (drop m s) = Some segs"
    by (auto dest: greedy_sound)
  have ms: "m \<le> length s" using m(2) length_takeWhile_le [of c s] by simp
  from m ms have "take m s \<noteq> []" by auto
  with m have "seg_ok (Plus c) (take m s)" by (auto intro: take_run)
  from seg_take [of m s k segs "seg_ok (Plus c)", OF ms m(4) this] m(3)
  show ?case by simp
next
  case (6 a k s)
  then show ?case by simp
qed

lemma match_here_sound:
  "match_here p s = Some segs \<Longrightarrow>
   list_all2 seg_ok p segs \<and> s = concat segs @ drop (length (concat segs)) s"
proof (induction p arbitrary: s segs)
  case Nil
  then show ?case by simp
next
  case (Cons a p)
  from Cons.prems obtain seg segs' where
    r: "segs = seg # segs'" "seg_ok a seg" "s = seg @ drop (length seg) s"
       "match_here p (drop (length seg) s) = Some segs'"
    by (auto dest: match_atom_sound)
  from Cons.IH [OF r(4)] have
    ih: "list_all2 seg_ok p segs'"
        "drop (length seg) s = concat segs' @ drop (length (concat segs')) (drop (length seg) s)"
    by auto
  have "s = seg @ concat segs' @ drop (length (concat segs') + length seg) s"
    using r(3) ih(2) by (metis drop_drop)
  with r ih show ?case by (simp add: add.commute)
qed

lemma finditer_skip_matches:
  "segs \<in> set (finditer_skip p n s) \<Longrightarrow> \<exists>x. match_here p x = Some segs"
proof (induction s arbitrary: n)
  case Nil
  show ?case
  proof (cases "match_here p []")
    case None
    with Nil show ?thesis by (cases "n = 0") simp_all
  next
    case (Some m)
    with Nil have "segs = m" by (cases "n = 0") simp_all
    with Some show ?thesis by blast
  qed
next
  case (Cons c cs)
  show ?case
  proof (cases "0 < n")
    case True
    with Cons.prems have "segs \<in> set (finditer_skip p (n - 1) cs)" by simp
    then show ?thesis by (rule Cons.IH)
  next
    case False
    show ?thesis
    proof (cases "match_here p (c # cs)")
      case None
      with False Cons.prems have "segs \<in> set (finditer_skip p 0 cs)" by simp
      then show ?thesis by (rule Cons.IH)
    next
      case (Some m)
      with False Cons.prems have "segs = m \<or> segs \<in> set (finditer_skip p (length (concat m) - 1) cs)"
        by simp
      then show ?thesis using Some Cons.IH by blast
    qed
  qed
qed

lemma rewriter_segs:
  assumes "list_all2 seg_ok rewriter_pattern segs"
  shows "\<exists>s1 s3 s5 s6 s7 a s9 s10 s11 s13 s14 s15 b s17 s18 s19 s21.
     segs = [''{{'', s1, ''source'', s3, ''('', s5, s6, s7, a, s9, s10, s11, '','', s13, s14, s15,
             b, s17, s18, s19, '')'', s21, ''}}'']
     \<and> list_all is_space s1 \<and> list_all is_space s3 \<and> list_all is_space s5
     \<and> seg_ok (Opt (\<lambda>c. c = dq)) s6 \<and> seg_ok (Opt (\<lambda>c. c = sq)) s7
     \<and> seg_ok (Plus not_quote) a
     \<and> seg_ok (Opt (\<lambda>c. c = dq)) s9 \<and> seg_ok (Opt (\<lambda>c. c = sq)) s10
     \<and> list_all is_space s11 \<and> list_all is_space s13
     \<and> seg_ok (Opt (\<lambda>c. c = dq)) s14 \<and> seg_ok (Opt (\<lambda>c. c = sq)) s15
     \<and> seg_ok (Plus not_quote) b
     \<and> seg_ok (Opt (\<lambda>c. c = dq)) s17 \<and> seg_ok (Opt (\<lambda>c. c = sq)) s18
     \<and> list_all is_space s19 \<and> list_all is_space s21"
  using assms unfolding rewriter_pattern_def
  apply (simp only: list_all2_Cons1 list_all2_Nil seg_ok.simps(1,4,6))
  apply (elim exE conjE)
  apply (simp only:)
  apply (intro exI conjI)
  apply (rule refl)
  apply assumption+
  done

lemma rewriter_groups:
  assumes "list_all2 seg_ok rewriter_pattern segs"
  shows "\<exists>a b. groups rewriter_pattern segs = [a, b] \<and> a \<noteq> [] \<and> b \<noteq> []
           \<and> list_all not_quote a \<and> list_all not_quote b"
proof -
  from rewriter_segs [OF assms] obtain s1 s3 s5 s6 s7 a s9 s10 s11 s13 s14 s15 b s17 s18 s19 s21
    where segs: "segs = [''{{'', s1, ''source'', s3, ''('', s5, s6, s7, a, s9, s10, s11, '','', s13, s14, s15,
             b, s17, s18, s19, '')'', s21, ''}}'']"
      and ab: "seg_ok (Plus not_quote) a" "seg_ok (Plus not_quote) b"
    by blast
  have "groups rewriter_pattern segs = [a, b]"
    unfolding segs by (simp add: groups_def rewriter_pattern_def)
  with ab show ?thesis by simp
qed


lemma new_ref_quotes:
  assumes "list_all not_quote a" "list_all not_quote b"
  shows "filter quote (new_ref a b) = [sq, sq]"
proof -
  have "filter quote a = []" "filter quote b = []"
    using assms by (auto simp: list_all_iff not_quote_def filter_empty_conv)
  then show ?thesis by (simp add: new_ref_def quote_def sq_def dq_def)
qed

lemma example_finditer: "finditer rewriter_pattern ''SELECT * FROM {{ source('sup','clicks') }}'' =
     [[''{{'', '' '', ''source'', [], ''('', [], [], [sq], ''sup'', [], [sq], [], '','', [],
       [], [sq], ''clicks'', [], [sq], [], '')'', '' '', ''}}'']]"
    by code_simp

section \<open>The reference scanner\<close>

lemma classified_used_add:
  "classified (used_add u k v) t p \<longleftrightarrow> classified u t p \<or> (t = k \<and> p = v)"
proof (cases "k \<in> fst ` set u")
  case True
  define f :: "string \<times> path set \<Rightarrow> string \<times> path set"
    where "f = (\<lambda>(k', vs). if k' = k then (k', insert v vs) else (k', vs))"
  have ua: "used_add u k v = map f u"
    using True by (simp add: used_add_def f_def)
  have f: "\<And>k' vs. f (k', vs) = (k', if k' = k then insert v vs else vs)"
    by (simp add: f_def)
  show ?thesis
  proof
    assume "classified (used_add u k v) t p"
    then obtain ps where "(t, ps) \<in> f ` set u" "p \<in> ps"
      by (auto simp: classified_def ua)
    then obtain k' vs where e: "(k', vs) \<in> set u" "(t, ps) = f (k', vs)"
      by auto
    with \<open>p \<in> ps\<close> f [of k' vs] have "t = k'" "p \<in> vs \<or> (k' = k \<and> p = v)"
      by (auto split: if_splits)
    with e(1) show "classified u t p \<or> (t = k \<and> p = v)"
      by (auto simp: classified_def)
  next
    assume "classified u t p \<or> (t = k \<and> p = v)"
    then show "classified (used_add u k v) t p"
    proof
      assume "classified u t p"
      then obtain ps where ps: "(t, ps) \<in> set u" "p \<in> ps"
        by (auto simp: classified_def)
      then have "f (t, ps) \<in> set (map f u)" by simp
      with ps(2) f [of t ps] show ?thesis
        unfolding classified_def ua by (cases "t = k") auto
    next
      assume tk: "t = k \<and> p = v"
      from True obtain b where "(k, b) \<in> set u" by auto
      then have "f (k, b) \<in> set (map f u)" by simp
      with tk f [of k b] show ?thesis
        unfolding classified_def ua by auto
    qed
  qed
next
  case False
  then show ?thesis
    unfolding classified_def used_add_def by auto
qed

lemma classified_fold_matches:
  "classified (fold (\<lambda>match u. if fst match = s then used_add u (snd match) fp else u) ms u) t p
   \<longleftrightarrow> classified u t p \<or> (p = fp \<and> (s, t) \<in> set ms)"
proof (induction ms arbitrary: u)
  case Nil
  then show ?case by simp
next
  case (Cons m ms)
  show ?case
    by (cases m) (auto simp: Cons.IH classified_used_add)
qed

lemma classified_scan_content:
  "classified (scan_content s fp content u) t p
   \<longleftrightarrow> classified u t p \<or> (p = fp \<and> (s, t) \<in> set (findall (scanner_pattern s) content))"
  unfolding scan_content_def by (rule classified_fold_matches)

lemma classified_fold_files:
  "classified (fold (\<lambda>(file, content) u.
                       if endswith file ''.sql''
                       then scan_content s (root @ [file]) (read_text content) u
                       else u) entries u) t p
   \<longleftrightarrow> classified u t p
       \<or> (\<exists>(file, content) \<in> set entries. endswith file ''.sql'' \<and> p = root @ [file]
            \<and> (s, t) \<in> set (findall (scanner_pattern s) (read_text content)))"
proof (induction entries arbitrary: u)
  case Nil
  then show ?case by simp
next
  case (Cons f entries)
  show ?case
    by (cases f) (auto simp: Cons.IH classified_scan_content)
qed

lemma classified_fold_visits:
  "classified (fold (\<lambda>(root, files) used.
             fold (\<lambda>(file, content) u.
                     if endswith file ''.sql''
                     then scan_content s (root @ [file]) (read_text content) u
                     else u)
                  files used) visits u) t p
   \<longleftrightarrow> classified u t p
       \<or> (\<exists>(root, files) \<in> set visits. \<exists>(file, content) \<in> set files.
             endswith file ''.sql'' \<and> p = root @ [file]
            \<and> (s, t) \<in> set (findall (scanner_pattern s) (read_text content)))"
proof (induction visits arbitrary: u)
  case Nil
  then show ?case by simp
next
  case (Cons v visits)
  show ?case
    by (cases v) (auto simp: Cons.IH classified_fold_files)
qed

lemma classified_scanner:
  "classified (get_sources_used_with_source_func fs directory s) t p
   \<longleftrightarrow> (\<exists>(root, files) \<in> set (os_walk drop_sources directory fs).
         \<exists>(file, content) \<in> set files.
             endswith file ''.sql'' \<and> p = root @ [file]
            \<and> (s, t) \<in> set (findall (scanner_pattern s) (read_text content)))"
  unfolding get_sources_used_with_source_func_def
  by (simp add: classified_fold_visits) (simp add: classified_def)

lemma drop_sources_set:
  "distinct names \<Longrightarrow> set (drop_sources names) = set names - {''sources''}"
  by (auto simp: drop_sources_def)

lemma drop_sources_keeps:
  "d \<in> set names \<Longrightarrow> d \<noteq> ''sources'' \<Longrightarrow> d \<in> set (drop_sources names)"
  by (auto simp: drop_sources_def)

lemma os_walk_roots:
  "wf_tree t \<Longrightarrow> (root, fl) \<in> set (os_walk drop_sources dirpath t) \<Longrightarrow>
   \<exists>dirs. root = dirpath @ dirs \<and> ''sources'' \<notin> set dirs"
proof (induction t arbitrary: dirpath root fl rule: wf_tree.induct)
  case (1 fs ds)
  from "1.prems"(2) have "(root, fl) = (dirpath, fs)
    \<or> (\<exists>d \<in> set (drop_sources (map fst ds)). \<exists>t'. map_of ds d = Some t'
           \<and> (root, fl) \<in> set (os_walk drop_sources (dirpath @ [d]) t'))"
    by (auto split: option.splits)
  then show ?case
  proof
    assume "(root, fl) = (dirpath, fs)"
    then have "root = dirpath @ [] \<and> ''sources'' \<notin> set []" by simp
    then show ?thesis by blast
  next
    assume "\<exists>d \<in> set (drop_sources (map fst ds)). \<exists>t'. map_of ds d = Some t'
           \<and> (root, fl) \<in> set (os_walk drop_sources (dirpath @ [d]) t')"
    then obtain d t' where d: "d \<in> set (drop_sources (map fst ds))" "map_of ds d = Some t'"
        "(root, fl) \<in> set (os_walk drop_sources (dirpath @ [d]) t')"
      by blast
    from "1.prems"(1) have dist: "distinct (map fst ds)" and wf: "wf_tree t'"
      using d(2) by auto
    from d(1) dist have ne: "d \<noteq> ''sources''" by (simp add: drop_sources_set)
    from "1.IH" [OF d(2) wf d(3)] obtain dirs where
      "root = (dirpath @ [d]) @ dirs" "''sources'' \<notin> set dirs" by blast
    with ne have "root = dirpath @ (d # dirs) \<and> ''sources'' \<notin> set (d # dirs)" by simp
    then show ?thesis by blast
  qed
qed

lemma os_walk_reaches:
  "subtree t dirs = Some t' \<Longrightarrow> ''sources'' \<notin> set dirs \<Longrightarrow>
   (dirpath @ dirs, dir_files t') \<in> set (os_walk drop_sources dirpath t)"
proof (induction t dirs arbitrary: dirpath rule: subtree.induct)
  case (1 t)
  then show ?case by (cases t) auto
next
  case (2 fs ds d rest)
  from "2.prems"(1) obtain t1 where t1: "map_of ds d = Some t1" "subtree t1 rest = Some t'"
    by (auto split: option.splits)
  from "2.prems"(2) have ne: "d \<noteq> ''sources''" "''sources'' \<notin> set rest" by auto
  from t1(1) have "d \<in> set (map fst ds)" by (metis map_of_eq_None_iff option.distinct(1) set_map)
  with ne have din: "d \<in> set (drop_sources (map fst ds))" by (simp add: drop_sources_keeps)
  from "2.IH" [OF t1(1) t1(2) ne(2), of "dirpath @ [d]"]
  have "(dirpath @ d # rest, dir_files t') \<in> set (os_walk drop_sources (dirpath @ [d]) t1)"
    by simp
  with din t1(1) show ?case by (auto intro!: bexI [of _ d])
qed

lemma os_walk_visits_subtree:
  "(root, fl) \<in> set (os_walk edit dirpath t) \<Longrightarrow>
   \<exists>dirs t'. root = dirpath @ dirs \<and> subtree t dirs = Some t' \<and> dir_files t' = fl"
proof (induction edit dirpath t arbitrary: root fl rule: os_walk.induct)
  case (1 edit dirpath fs ds)
  from "1.prems" have "(root, fl) = (dirpath, fs)
    \<or> (\<exists>d \<in> set (edit (map fst ds)). \<exists>t'. map_of ds d = Some t'
           \<and> (root, fl) \<in> set (os_walk edit (dirpath @ [d]) t'))"
    by (auto split: option.splits)
  then show ?case
  proof
    assume "(root, fl) = (dirpath, fs)"
    then have "root = dirpath @ [] \<and> subtree (Dir fs ds) [] = Some (Dir fs ds)
        \<and> dir_files (Dir fs ds) = fl" by simp
    then show ?thesis by blast
  next
    assume "\<exists>d \<in> set (edit (map fst ds)). \<exists>t'. map_of ds d = Some t'
           \<and> (root, fl) \<in> set (os_walk edit (dirpath @ [d]) t')"
    then obtain d t1 where d: "d \<in> set (edit (map fst ds))" "map_of ds d = Some t1"
        "(root, fl) \<in> set (os_walk edit (dirpath @ [d]) t1)"
      by blast
    from "1.IH" [OF d] obtain dirs t' where
      "root = (dirpath @ [d]) @ dirs" "subtree t1 dirs = Some t'" "dir_files t' = fl" by blast
    with d(2) have "root = dirpath @ (d # dirs) \<and> subtree (Dir fs ds) (d # dirs) = Some t'
        \<and> dir_files t' = fl" by simp
    then show ?thesis by blast
  qed
qed

lemma example_wf: "wf_tree example_tree"
  by (simp add: example_tree_def)

lemma example_used:
  "get_sources_used_with_source_func example_tree [''models''] ''sup''
     = [(''orders'', {[''models'', ''a.sql'']}), (''clicks'', {[''models'', ''a.sql'']})]"
  by code_simp

text \<open>
  Claim C7. For every directory tree, every file path in the scanner's result lies at a
  relative path none of whose directories is named \<open>sources\<close>: the walk never enters a
  subdirectory of that name, whatever the files below it contain.
\<close>

theorem scanner_skips_sources:
  assumes "wf_tree fs"
      and "(table, paths) \<in> set (get_sources_used_with_source_func fs directory source_name)"
      and "p \<in> paths"
  shows "\<exists>dirs file. p = directory @ dirs @ [file] \<and> ''sources'' \<notin> set dirs"
proof -
  from assms(2,3) have "classified (get_sources_used_with_source_func fs directory source_name) table p"
    by (auto simp: classified_def)
  then obtain root fl fname where v: "(root, fl) \<in> set (os_walk drop_sources directory fs)"
      "p = root @ [fname]"
    by (auto simp: classified_scanner)
  from os_walk_roots [OF assms(1) v(1)] obtain dirs where
    "root = directory @ dirs" "''sources'' \<notin> set dirs" by blast
  with v(2) have "p = directory @ dirs @ [fname] \<and> ''sources'' \<notin> set dirs" by simp
  then show ?thesis by blast
qed

theorem scanner_skips_sources_witness:
  "wf_tree example_tree
   \<and> file_content example_tree [''sources''] ''old.sql''
       = Some ''select * from {{ source('sup','stale') }}''
   \<and> (''orders'', {[''models'', ''a.sql'']})
        \<in> set (get_sources_used_with_source_func example_tree [''models''] ''sup'')
   \<and> (\<exists>dirs file. [''models'', ''a.sql''] = [''models''] @ dirs @ [file]
         \<and> ''sources'' \<notin> set dirs)"
proof -
  have m: "(''orders'', {[''models'', ''a.sql'']})
        \<in> set (get_sources_used_with_source_func example_tree [''models''] ''sup'')"
    by (simp add: example_used)
  have f: "file_content example_tree [''sources''] ''old.sql''
       = Some ''select * from {{ source('sup','stale') }}''"
    by (simp add: file_content_def example_tree_def)
  have p: "[''models'', ''a.sql''] \<in> {[''models'', ''a.sql'']}" by simp
  from scanner_skips_sources [OF example_wf m p] example_wf m f show ?thesis by blast
qed

subsection \<open>Calls of source in a file\<close>

lemma greedy_first:
  "lo \<le> n \<Longrightarrow> k (drop n s) = Some segs \<Longrightarrow> greedy k s lo n = Some (take n s # segs)"
  by (cases n) auto

lemma takeWhile_run:
  "list_all c seg \<Longrightarrow> after = [] \<or> \<not> c (hd after) \<Longrightarrow> takeWhile c (seg @ after) = seg"
  by (cases after) (auto simp: list_all_iff takeWhile_append2)

lemma match_atom_first:
  "atom_first a seg after \<Longrightarrow> k after = Some segs \<Longrightarrow>
   match_atom a k (seg @ after) = Some (seg # segs)"
proof (induction a seg after rule: atom_first.induct)
  case (1 w seg after)
  then show ?case by simp
next
  case (2 c seg after)
  then obtain x where "seg = [x]" by (cases seg) auto
  with 2 show ?case by simp
next
  case (3 c seg after)
  from "3.prems"(1) consider x where "seg = [x]" "c x"
    | "seg = []" "after = [] \<or> \<not> c (hd after)"
    by (cases seg) auto
  then show ?case
  proof cases
    case 1
    then have "length (takeWhile c (take 1 (seg @ after))) = 1" by simp
    with 1 "3.prems"(2) show ?thesis by (simp add: greedy_first)
  next
    case 2
    then have "takeWhile c (take 1 (seg @ after)) = []" by (cases after) auto
    with 2 "3.prems"(2) show ?thesis by simp
  qed
next
  case (4 c seg after)
  then have "takeWhile c (seg @ after) = seg" by (simp add: takeWhile_run)
  with "4.prems"(2) show ?case by (simp add: greedy_first)
next
  case (5 c seg after)
  then have "takeWhile c (seg @ after) = seg" by (simp add: takeWhile_run)
  moreover from 5 have "1 \<le> length seg" by (cases seg) auto
  ultimately show ?case using "5.prems"(2) by (simp add: greedy_first)
next
  case (6 r seg after)
  then show ?case by simp
qed

lemma first_path_match:
  "first_path p segs rest \<Longrightarrow> match_here p (concat segs @ rest) = Some segs"
proof (induction p segs rest rule: first_path.induct)
  case (1 rest)
  then show ?case by simp
next
  case (2 a as seg segs rest)
  then have "match_here as (concat segs @ rest) = Some segs" by simp
  with 2 have "match_atom a (match_here as) (seg @ concat segs @ rest) = Some (seg # segs)"
    by (intro match_atom_first) simp_all
  then show ?case by simp
qed simp_all

lemma quote_not_space: "quote c \<Longrightarrow> \<not> is_space c"
  by (auto simp: quote_def is_space_def sq_def dq_def)

lemma punct_not_space:
  "\<not> is_space CHR ''(''" "\<not> is_space CHR '')''" "\<not> is_space CHR '',''"
  "\<not> is_space CHR ''e''" "\<not> is_space CHR ''{''" "\<not> is_space CHR ''}''"
  "\<not> is_space CHR ''s''"
  by (simp_all add: is_space_def)

lemma scanner_matches_call:
  assumes ws: "list_all is_space w1" "list_all is_space w2" "list_all is_space w3"
              "list_all is_space w4" "list_all is_space w5"
      and qs: "quote q1" "quote q2" "quote q3" "quote q4"
      and t: "t \<noteq> []" "list_all not_quote t"
  shows "match_here (scanner_pattern s) (call_text w1 w2 q1 s q2 w3 w4 q3 t q4 w5 @ post)
         = Some [''source'', w1, ''('', w2, [q1], s, [q2], w3, '','', w4, [q3], t, [q4], w5, '')'']"
proof -
  let ?segs = "[''source'', w1, ''('', w2, [q1], s, [q2], w3, '','', w4, [q3], t, [q4], w5, '')'']"
  have "first_path (scanner_pattern s) ?segs post"
    using assms
    by (simp add: scanner_pattern_def quote_not_space not_quote_def punct_not_space)
  from first_path_match [OF this] show ?thesis
    by (simp add: call_text_def)
qed

lemma scanner_segs:
  assumes "list_all2 seg_ok (scanner_pattern s) segs"
  shows "\<exists>ws1 ws2 q1 o2 ws3 ws4 q3 g2 o4 ws5.
     segs = [''source'', ws1, ''('', ws2, q1, s, o2, ws3, '','', ws4, q3, g2, o4, ws5, '')'']
     \<and> list_all is_space ws1 \<and> list_all is_space ws2
     \<and> seg_ok (One quote) q1 \<and> seg_ok (Opt quote) o2
     \<and> list_all is_space ws3 \<and> list_all is_space ws4
     \<and> seg_ok (One quote) q3 \<and> seg_ok (Plus not_quote) g2 \<and> seg_ok (Opt quote) o4
     \<and> list_all is_space ws5"
  using assms unfolding scanner_pattern_def
  apply (simp only: list_all2_Cons1 list_all2_Nil seg_ok.simps(1,4,6))
  apply (elim exE conjE)
  apply (simp only:)
  apply (intro exI conjI)
  apply (rule refl)
  apply assumption+
  done

lemma space_not_quote: "list_all is_space ws \<Longrightarrow> filter quote ws = []"
  by (auto simp: list_all_iff filter_empty_conv dest: quote_not_space)

lemma not_quote_filter: "list_all not_quote g \<Longrightarrow> filter quote g = []"
  by (auto simp: list_all_iff filter_empty_conv not_quote_def)

lemma one_quote: "seg_ok (One quote) q \<Longrightarrow> \<exists>c. q = [c] \<and> quote c"
  by (cases q) auto

lemma opt_quote: "seg_ok (Opt quote) q \<Longrightarrow> q = [] \<or> (\<exists>c. q = [c] \<and> quote c)"
  by (cases q) auto

lemma dropWhile_run:
  "list_all P xs \<Longrightarrow> \<not> P y \<Longrightarrow> dropWhile P (xs @ y # ys) = y # ys"
  by (simp add: list_all_iff dropWhile_append2)

lemma source_aligned:
  assumes eq: "''source'' @ ws1 @ ''('' @ ws2 = u @ ''source'' @ w1 @ ''('' @ w2"
      and ws: "list_all is_space ws1" "list_all is_space ws2"
              "list_all is_space w1" "list_all is_space w2"
  shows "u = []"
proof -
  have r: "rev ws2 @ CHR ''('' # rev ws1 @ ''ecruos''
         = rev w2 @ CHR ''('' # rev w1 @ ''ecruos'' @ rev u"
    using arg_cong [OF eq, of rev] by simp
  have "dropWhile is_space (rev ws2 @ CHR ''('' # rev ws1 @ ''ecruos'')
        = CHR ''('' # rev ws1 @ ''ecruos''"
    using ws by (intro dropWhile_run) (simp_all add: punct_not_space)
  moreover have "dropWhile is_space (rev w2 @ CHR ''('' # rev w1 @ ''ecruos'' @ rev u)
        = CHR ''('' # rev w1 @ ''ecruos'' @ rev u"
    using ws by (intro dropWhile_run) (simp_all add: punct_not_space)
  ultimately have r2: "rev ws1 @ ''ecruos'' = rev w1 @ ''ecruos'' @ rev u"
    using r by simp
  have "dropWhile is_space (rev ws1 @ CHR ''e'' # ''cruos'') = CHR ''e'' # ''cruos''"
    using ws by (intro dropWhile_run) (simp_all add: punct_not_space)
  moreover have "dropWhile is_space (rev w1 @ CHR ''e'' # (''cruos'' @ rev u))
        = CHR ''e'' # (''cruos'' @ rev u)"
    using ws by (intro dropWhile_run) (simp_all add: punct_not_space)
  ultimately have "''ecruos'' = ''ecruos'' @ rev u"
    using r2 by simp
  then show ?thesis by simp
qed

lemma finditer_skip_finds:
  assumes here: "match_here p (c # cs) = Some m"
      and no_overlap: "\<And>u segs. u \<noteq> [] \<Longrightarrow> match_here p (u @ c # cs) = Some segs
                          \<Longrightarrow> length (concat segs) \<le> length u"
  shows "n \<le> length pre \<Longrightarrow> m \<in> set (finditer_skip p n (pre @ c # cs))"
proof (induction pre arbitrary: n)
  case Nil
  with here show ?case by simp
next
  case (Cons a pre)
  show ?case
  proof (cases "0 < n")
    case True
    with Cons.prems have "n - 1 \<le> length pre" by simp
    from Cons.IH [OF this] True show ?thesis by simp
  next
    case False
    show ?thesis
    proof (cases "match_here p (a # pre @ c # cs)")
      case None
      with False Cons.IH [of 0] show ?thesis by simp
    next
      case (Some segs)
      from no_overlap [of "a # pre" segs] Some
      have "length (concat segs) \<le> Suc (length pre)" by simp
      then have "length (concat segs) - 1 \<le> length pre" by simp
      from Cons.IH [OF this] False Some show ?thesis by simp
    qed
  qed
qed

lemma spaces_not_quote: "list_all is_space ws \<Longrightarrow> list_all not_quote ws"
  by (auto simp: list_all_iff not_quote_def dest: quote_not_space)

lemma takeWhile_stop:
  "list_all P xs \<Longrightarrow> \<not> P y \<Longrightarrow> takeWhile P (xs @ y # ys) = xs"
  by (simp add: list_all_iff takeWhile_append2)

lemma source_not_quote: "list_all not_quote ''source''" "not_quote CHR ''(''"
  by (simp_all add: not_quote_def quote_def sq_def dq_def)

lemma source_filter_quote: "filter quote ''source'' = []"
  by (simp add: quote_def sq_def dq_def)

lemma punct_not_quote:
  "\<not> quote CHR ''(''" "\<not> quote CHR '')''" "\<not> quote CHR '',''"
  "\<not> quote CHR ''s''" "\<not> quote CHR ''o''" "\<not> quote CHR ''u''"
  "\<not> quote CHR ''r''" "\<not> quote CHR ''c''" "\<not> quote CHR ''e''"
  "\<not> quote CHR ''{''" "\<not> quote CHR ''}''"
  by (simp_all add: quote_def sq_def dq_def)

lemma overlap_split:
  assumes "u @ x = m @ r" "length u < length m"
  shows "\<exists>w. m = u @ w \<and> w \<noteq> [] \<and> x = w @ r"
proof -
  from assms(1) have "(\<exists>w. u @ w = m \<and> x = w @ r) \<or> (\<exists>w. u = m @ w \<and> w @ x = r)"
    by (simp only: append_eq_append_conv2) blast
  with assms(2) obtain w where "u @ w = m" "x = w @ r" by auto
  with assms(2) have "m = u @ w \<and> w \<noteq> [] \<and> x = w @ r" by auto
  then show ?thesis by blast
qed

lemma prefix_cases:
  assumes "c @ p = w @ r"
  shows "(\<exists>v. w = c @ v) \<or> (\<exists>v. c = w @ v \<and> v \<noteq> [])"
proof -
  from assms have "(\<exists>v. c @ v = w \<and> p = v @ r) \<or> (\<exists>v. c = w @ v \<and> v @ p = r)"
    by (simp only: append_eq_append_conv2) blast
  then show ?thesis
  proof
    assume "\<exists>v. c @ v = w \<and> p = v @ r"
    then show ?thesis by blast
  next
    assume "\<exists>v. c = w @ v \<and> v @ p = r"
    then obtain v where v: "c = w @ v" by blast
    show ?thesis
    proof (cases "v = []")
      case True
      with v have "w = c @ []" by simp
      then show ?thesis by blast
    next
      case False
      with v show ?thesis by blast
    qed
  qed
qed

lemma scanner_no_overlap:
  assumes m: "match_here (scanner_pattern s)
                (u @ call_text w1 w2 q1 s q2 w3 w4 q3 t q4 w5 @ post) = Some segs"
      and u: "u \<noteq> []"
      and ws: "list_all is_space w1" "list_all is_space w2" "list_all is_space w3"
              "list_all is_space w4" "list_all is_space w5"
      and qs: "quote q1" "quote q2" "quote q3" "quote q4"
      and s: "\<forall>c \<in> set s. \<not> quote c \<and> c \<noteq> CHR '')''"
      and t: "\<forall>c \<in> set t. \<not> quote c \<and> c \<noteq> CHR '')''"
  shows "length (concat segs) \<le> length u"
proof (rule ccontr)
  assume "\<not> length (concat segs) \<le> length u"
  then have long: "length u < length (concat segs)" by simp
  let ?C = "call_text w1 w2 q1 s q2 w3 w4 q3 t q4 w5"
  let ?M = "concat segs"
  from match_here_sound [OF m] have shape: "list_all2 seg_ok (scanner_pattern s) segs"
    and pre: "u @ ?C @ post = ?M @ drop (length ?M) (u @ ?C @ post)"
    by simp_all
  from scanner_segs [OF shape] obtain ws1 ws2 Q1 o2 ws3 ws4 Q3 g2 o4 ws5 where
    segs: "segs = [''source'', ws1, ''('', ws2, Q1, s, o2, ws3, '','', ws4, Q3, g2, o4, ws5, '')'']"
    and sp: "list_all is_space ws1" "list_all is_space ws2" "list_all is_space ws3"
            "list_all is_space ws4" "list_all is_space ws5"
    and q: "seg_ok (One quote) Q1" "seg_ok (Opt quote) o2" "seg_ok (One quote) Q3"
           "seg_ok (Plus not_quote) g2" "seg_ok (Opt quote) o4"
    by blast
  from one_quote [OF q(1)] obtain c1 where c1: "Q1 = [c1]" "quote c1" by blast
  from one_quote [OF q(3)] obtain c3 where c3: "Q3 = [c3]" "quote c3" by blast
  have M: "?M = ''source'' @ ws1 @ ''('' @ ws2 @ c1 # s @ o2 @ ws3 @ '','' @ ws4 @ c3 # g2 @ o4
               @ ws5 @ '')''"
    by (simp add: segs c1 c3)
  have sq: "filter quote s = []" "filter quote t = []"
    using s t by (auto simp: filter_empty_conv)
  have "length (filter quote o2) \<le> 1" "length (filter quote o4) \<le> 1"
    using opt_quote [OF q(2)] opt_quote [OF q(5)] by auto
  then have cntM: "length (filter quote ?M) \<le> 4"
    using sp q(4) c1 c3 by (simp add: M space_not_quote not_quote_filter sq punct_not_quote)
  have cntC: "length (filter quote ?C) = 4"
    using ws qs by (simp add: call_text_def space_not_quote sq punct_not_quote)
  from overlap_split [OF pre long] obtain w where w: "?M = u @ w" "w \<noteq> []"
      "?C @ post = w @ drop (length ?M) (u @ ?C @ post)"
    by blast
  from prefix_cases [OF w(3)] consider v where "w = ?C @ v" | v where "?C = w @ v" "v \<noteq> []"
    by blast
  then show False
  proof cases
    case 1
    with w(1) have Muv: "?M = u @ ?C @ v" by simp
    from cntM cntC have uq: "filter quote u = []"
      by (simp add: Muv)
    then have unq: "list_all not_quote u"
      by (auto simp: list_all_iff not_quote_def filter_empty_conv)
    have "takeWhile not_quote ?M = ''source'' @ ws1 @ ''('' @ ws2"
    proof -
      have a: "list_all not_quote (''source'' @ ws1 @ ''('' @ ws2)"
        using sp source_not_quote by (simp add: spaces_not_quote)
      have b: "\<not> not_quote c1" using c1 by (simp add: not_quote_def)
      have e: "?M = (''source'' @ ws1 @ ''('' @ ws2) @ c1 #
          (s @ o2 @ ws3 @ '','' @ ws4 @ c3 # g2 @ o4 @ ws5 @ '')'')"
        by (simp add: M)
      show ?thesis unfolding e by (rule takeWhile_stop [OF a b])
    qed
    moreover have "takeWhile not_quote (u @ ?C @ v) = u @ ''source'' @ w1 @ ''('' @ w2"
    proof -
      have a: "list_all not_quote (u @ ''source'' @ w1 @ ''('' @ w2)"
        using ws unq source_not_quote by (simp add: spaces_not_quote)
      have b: "\<not> not_quote q1" using qs by (simp add: not_quote_def)
      have e: "u @ ?C @ v = (u @ ''source'' @ w1 @ ''('' @ w2) @ q1 #
          (s @ [q2] @ w3 @ '','' @ w4 @ [q3] @ t @ [q4] @ w5 @ '')'' @ v)"
        by (simp add: call_text_def)
      show ?thesis unfolding e by (rule takeWhile_stop [OF a b])
    qed
    ultimately have "''source'' @ ws1 @ ''('' @ ws2 = u @ ''source'' @ w1 @ ''('' @ w2"
      by (simp only: Muv)
    from source_aligned [OF this sp(1,2) ws(1,2)] u show False by simp
  next
    case 2
    have "last ?M = CHR '')''" by (simp add: M)
    with w have "last w = CHR '')''" by simp
    with w(2) have "CHR '')'' \<in> set w" by (metis last_in_set)
    moreover from 2 have "butlast ?C = w @ butlast v" by (simp add: butlast_append)
    ultimately have "CHR '')'' \<in> set (butlast ?C)" by simp
    moreover have "butlast ?C = ''source'' @ w1 @ ''('' @ w2 @ [q1] @ s @ [q2] @ w3 @ '','' @ w4
        @ [q3] @ t @ [q4] @ w5"
      by (simp add: call_text_def butlast_append)
    ultimately have "CHR '')'' \<in> set w1 \<union> set w2 \<union> set w3 \<union> set w4 \<union> set w5
        \<union> {q1, q2, q3, q4} \<union> set s \<union> set t"
      by auto
    with ws qs s t show False
      by (auto simp: list_all_iff punct_not_space punct_not_quote)
  qed
qed

lemma finditer_skip_Nil:
  "segs \<in> set (finditer_skip p n []) \<Longrightarrow> match_here p [] = Some segs"
  by (cases "n = 0"; cases "match_here p []") simp_all

lemma finditer_skip_Cons:
  assumes "segs \<in> set (finditer_skip p n (c # cs))"
  shows "match_here p (c # cs) = Some segs \<or> (\<exists>k. segs \<in> set (finditer_skip p k cs))"
proof (cases "0 < n")
  case True
  with assms have "segs \<in> set (finditer_skip p (n - 1) cs)" by simp
  then show ?thesis by blast
next
  case False
  show ?thesis
  proof (cases "match_here p (c # cs)")
    case None
    with False assms have "segs \<in> set (finditer_skip p 0 cs)" by simp
    then show ?thesis by blast
  next
    case (Some m)
    with False assms
    have "segs = m \<or> segs \<in> set (finditer_skip p (length (concat m) - 1) cs)"
      by simp
    with Some show ?thesis by blast
  qed
qed

lemma finditer_skip_suffix:
  "segs \<in> set (finditer_skip p n s) \<Longrightarrow> \<exists>ys x. s = ys @ x \<and> match_here p x = Some segs"
proof (induction s arbitrary: n)
  case Nil
  from finditer_skip_Nil [OF Nil] have "[] = [] @ [] \<and> match_here p [] = Some segs"
    by simp
  then show ?case by (intro exI)
next
  case (Cons c cs)
  from finditer_skip_Cons [OF Cons.prems]
  show ?case
  proof
    assume "match_here p (c # cs) = Some segs"
    then have "c # cs = [] @ (c # cs) \<and> match_here p (c # cs) = Some segs" by simp
    then show ?thesis by (intro exI)
  next
    assume "\<exists>k. segs \<in> set (finditer_skip p k cs)"
    then obtain k where "segs \<in> set (finditer_skip p k cs)" by blast
    from Cons.IH [OF this] obtain ys x where "cs = ys @ x" "match_here p x = Some segs"
      by blast
    then have "c # cs = (c # ys) @ x \<and> match_here p x = Some segs" by simp
    then show ?thesis by (intro exI)
  qed
qed

lemma scanner_groups:
  "groups (scanner_pattern s)
     [a0, a1, a2, a3, a4, a5, a6, a7, a8, a9, a10, a11, a12, a13, a14] = [a5, a11]"
  by (simp add: groups_def scanner_pattern_def)

lemma findall_call:
  assumes ws: "list_all is_space w1" "list_all is_space w2" "list_all is_space w3"
              "list_all is_space w4" "list_all is_space w5"
      and qs: "quote q1" "quote q2" "quote q3" "quote q4"
      and s: "\<forall>c \<in> set s. \<not> quote c \<and> c \<noteq> CHR '')''"
      and t: "t \<noteq> []" "\<forall>c \<in> set t. \<not> quote c \<and> c \<noteq> CHR '')''"
  shows "(s, t) \<in> set (findall (scanner_pattern s)
                         (pre @ call_text w1 w2 q1 s q2 w3 w4 q3 t q4 w5 @ post))"
proof -
  let ?C = "call_text w1 w2 q1 s q2 w3 w4 q3 t q4 w5"
  let ?m = "[''source'', w1, ''('', w2, [q1], s, [q2], w3, '','', w4, [q3], t, [q4], w5, '')'']"
  from t have tnq: "list_all not_quote t" by (simp add: list_all_iff not_quote_def)
  obtain c cs where ccs: "?C @ post = c # cs" by (simp add: call_text_def)
  have here: "match_here (scanner_pattern s) (c # cs) = Some ?m"
    using scanner_matches_call [OF ws qs t(1) tnq, of s post] by (simp add: ccs)
  have no: "\<And>u segs. u \<noteq> [] \<Longrightarrow> match_here (scanner_pattern s) (u @ c # cs) = Some segs
                          \<Longrightarrow> length (concat segs) \<le> length u"
  proof -
    fix u segs assume u: "u \<noteq> []"
      and m: "match_here (scanner_pattern s) (u @ c # cs) = Some segs"
    from m have "match_here (scanner_pattern s) (u @ ?C @ post) = Some segs" by (simp add: ccs)
    from scanner_no_overlap [OF this u ws qs s t(2)]
    show "length (concat segs) \<le> length u" .
  qed
  from finditer_skip_finds [OF here no, of 0 pre]
  have "?m \<in> set (finditer (scanner_pattern s) (pre @ ?C @ post))"
    by (simp add: finditer_def ccs)
  then have "(groups (scanner_pattern s) ?m ! 0, groups (scanner_pattern s) ?m ! 1)
      \<in> set (findall (scanner_pattern s) (pre @ ?C @ post))"
    unfolding findall_def set_map by (rule imageI)
  then show ?thesis by (simp add: scanner_groups)
qed

lemma findall_sound:
  assumes "(a, b) \<in> set (findall (scanner_pattern s) content)"
  shows "a = s \<and> (\<exists>pre x post. content = pre @ x @ post \<and> source_call s b x)"
proof -
  from assms obtain segs where segs: "segs \<in> set (finditer_skip (scanner_pattern s) 0 content)"
      "a = groups (scanner_pattern s) segs ! 0" "b = groups (scanner_pattern s) segs ! 1"
    by (auto simp: findall_def finditer_def)
  from finditer_skip_suffix [OF segs(1)] obtain ys x where
    x: "content = ys @ x" "match_here (scanner_pattern s) x = Some segs" by blast
  from match_here_sound [OF x(2)] have shape: "list_all2 seg_ok (scanner_pattern s) segs"
    and px: "x = concat segs @ drop (length (concat segs)) x" by simp_all
  from scanner_segs [OF shape] obtain ws1 ws2 Q1 o2 ws3 ws4 Q3 g2 o4 ws5 where
    sg: "segs = [''source'', ws1, ''('', ws2, Q1, s, o2, ws3, '','', ws4, Q3, g2, o4, ws5, '')'']"
    and sp: "list_all is_space ws1" "list_all is_space ws2" "list_all is_space ws3"
            "list_all is_space ws4" "list_all is_space ws5"
    and q: "seg_ok (One quote) Q1" "seg_ok (Opt quote) o2" "seg_ok (One quote) Q3"
           "seg_ok (Plus not_quote) g2" "seg_ok (Opt quote) o4"
    by blast
  from one_quote [OF q(1)] obtain c1 where c1: "Q1 = [c1]" "quote c1" by blast
  from one_quote [OF q(3)] obtain c3 where c3: "Q3 = [c3]" "quote c3" by blast
  from segs(2,3) have ab: "a = s" "b = g2" by (simp_all add: sg scanner_groups)
  have "source_call s g2 (concat segs)"
    unfolding source_call_def
    apply (rule exI [of _ ws1], rule exI [of _ ws2], rule exI [of _ c1], rule exI [of _ o2])
    apply (rule exI [of _ ws3], rule exI [of _ ws4], rule exI [of _ c3], rule exI [of _ o4])
    apply (rule exI [of _ ws5])
    using sp q c1 c3 by (simp add: sg)
  moreover from x(1) px have "content = ys @ concat segs @ drop (length (concat segs)) x"
    by simp
  ultimately show ?thesis using ab by blast
qed

lemma wf_subtree: "wf_tree t \<Longrightarrow> subtree t dirs = Some t' \<Longrightarrow> wf_tree t'"
proof (induction t dirs rule: subtree.induct)
  case (1 t)
  then show ?case by simp
next
  case (2 fs ds d rest)
  from "2.prems"(2) obtain t1 where t1: "map_of ds d = Some t1" "subtree t1 rest = Some t'"
    by (auto split: option.splits)
  from "2.prems"(1) t1(1) have "wf_tree t1" by simp
  from "2.IH" [OF t1(1) this t1(2)] show ?case .
qed




lemma file_content_visit:
  assumes "file_content fs dirs fname = Some content" "''sources'' \<notin> set dirs"
  shows "\<exists>fl. (directory @ dirs, fl) \<in> set (os_walk drop_sources directory fs)
            \<and> (fname, content) \<in> set fl"
proof -
  from assms(1) obtain t' where t': "subtree fs dirs = Some t'"
      "map_of (dir_files t') fname = Some content"
    by (auto simp: file_content_def split: option.splits)
  from os_walk_reaches [OF t'(1) assms(2), of directory] map_of_SomeD [OF t'(2)]
  show ?thesis by blast
qed

lemma visit_file_content:
  assumes "wf_tree fs" "(root, fl) \<in> set (os_walk edit directory fs)"
      and "(fname, content) \<in> set fl"
  shows "\<exists>dirs. root = directory @ dirs \<and> file_content fs dirs fname = Some content"
proof -
  from os_walk_visits_subtree [OF assms(2)] obtain dirs t' where
    d: "root = directory @ dirs" "subtree fs dirs = Some t'" "dir_files t' = fl" by blast
  from wf_subtree [OF assms(1) d(2)] have "distinct (map fst (dir_files t'))"
    by (cases t') simp
  with assms(3) d(3) have "map_of (dir_files t') fname = Some content"
    by (simp add: map_of_is_SomeI)
  with d have "root = directory @ dirs \<and> file_content fs dirs fname = Some content"
    by (simp add: file_content_def)
  then show ?thesis by blast
qed

text \<open>
  Claim C2, as stated: every file that contains a call \<open>source('s','t')\<close>, quoted with
  any mix of the two quote characters, is listed under table \<open>t\<close> for source \<open>s\<close>. A
  table name in double quotes that holds a single quote is not matched at all; and with the
  source name \<open>)\<close> the call \<open>source(')','t')\<close> is not found when an earlier match
  ends inside it.
\<close>

theorem scanner_misses_calls:
  "get_sources_used_with_source_func
       (Dir [(''m.sql'', ''select * from source('s', '' @ [dq] @ ''it's'' @ [dq] @ '')'')] [])
       [''models''] ''s'' = []
   \<and> get_sources_used_with_source_func
       (Dir [(''m.sql'', ''source(')','a source(')','t')'')] []) [''models''] '')''
     = [(''a source('', {[''models'', ''m.sql'']})]"
proof -
  have 1: "get_sources_used_with_source_func
       (Dir [(''m.sql'', ''select * from source('s', '' @ [dq] @ ''it's'' @ [dq] @ '')'')] [])
       [''models''] ''s'' = []"
    by code_simp
  have 2: "get_sources_used_with_source_func
       (Dir [(''m.sql'', ''source(')','a source(')','t')'')] []) [''models''] '')''
     = [(''a source('', {[''models'', ''m.sql'']})]"
    by code_simp
  from 1 2 show ?thesis by simp
qed

text \<open>
  Claim C2, amended. A file (with the SQL extension, not below a directory named
  \<open>sources\<close>) whose text, as read, contains a call \<open>source('s','t')\<close>, with any of the two
  quote characters at each of the four places and any whitespace after the call name, inside
  the parentheses and around the comma, is listed under table \<open>t\<close> by the scanner for
  source \<open>s\<close>, provided \<open>s\<close> and \<open>t\<close> hold no quote character and no closing
  parenthesis and \<open>t\<close> is not empty. And the scanner lists a file under a table only if
  the text of the file contains a call whose first argument is the target source name
  itself: a file whose calls name another source gets no entry.
\<close>

theorem scanner_classifies_calls:
  "(list_all is_space w1 \<and> list_all is_space w2 \<and> list_all is_space w3
      \<and> list_all is_space w4 \<and> list_all is_space w5
      \<and> quote q1 \<and> quote q2 \<and> quote q3 \<and> quote q4
      \<and> (\<forall>c \<in> set s. \<not> quote c \<and> c \<noteq> CHR '')'')
      \<and> t \<noteq> [] \<and> (\<forall>c \<in> set t. \<not> quote c \<and> c \<noteq> CHR '')'')
      \<and> file_content fs dirs fname = Some stored
      \<and> read_text stored = pre @ call_text w1 w2 q1 s q2 w3 w4 q3 t q4 w5 @ post
      \<and> ''sources'' \<notin> set dirs \<and> endswith fname ''.sql''
    \<longrightarrow> classified (get_sources_used_with_source_func fs directory s) t
          (directory @ dirs @ [fname]))
   \<and> (wf_tree fs \<and> classified (get_sources_used_with_source_func fs directory s) t' p
    \<longrightarrow> (\<exists>dirs' fname' stored' pre' x post'.
           p = directory @ dirs' @ [fname']
           \<and> file_content fs dirs' fname' = Some stored'
           \<and> read_text stored' = pre' @ x @ post'
           \<and> source_call s t' x))"
proof (intro conjI impI)
  assume a: "list_all is_space w1 \<and> list_all is_space w2 \<and> list_all is_space w3
      \<and> list_all is_space w4 \<and> list_all is_space w5
      \<and> quote q1 \<and> quote q2 \<and> quote q3 \<and> quote q4
      \<and> (\<forall>c \<in> set s. \<not> quote c \<and> c \<noteq> CHR '')'')
      \<and> t \<noteq> [] \<and> (\<forall>c \<in> set t. \<not> quote c \<and> c \<noteq> CHR '')'')
      \<and> file_content fs dirs fname = Some stored
      \<and> read_text stored = pre @ call_text w1 w2 q1 s q2 w3 w4 q3 t q4 w5 @ post
      \<and> ''sources'' \<notin> set dirs \<and> endswith fname ''.sql''"
  let ?content = "pre @ call_text w1 w2 q1 s q2 w3 w4 q3 t q4 w5 @ post"
  from a have "(s, t) \<in> set (findall (scanner_pattern s) ?content)"
    by (intro findall_call) blast+
  moreover from a have "read_text stored = ?content" by blast
  ultimately have f: "(s, t) \<in> set (findall (scanner_pattern s) (read_text stored))"
    by (simp only:)
  from a have fc: "file_content fs dirs fname = Some stored" and ns: "''sources'' \<notin> set dirs"
    and e: "endswith fname ''.sql''"
    by blast+
  from file_content_visit [OF fc ns, of directory] obtain fl where
    v: "(directory @ dirs, fl) \<in> set (os_walk drop_sources directory fs)"
    "(fname, stored) \<in> set fl" by blast
  have inner: "\<exists>(file, content) \<in> set fl.
             endswith file ''.sql'' \<and> directory @ dirs @ [fname] = (directory @ dirs) @ [file]
            \<and> (s, t) \<in> set (findall (scanner_pattern s) (read_text content))"
    using v(2) e f by (intro bexI [of _ "(fname, stored)"]) simp_all
  have "\<exists>(root, entries) \<in> set (os_walk drop_sources directory fs).
         \<exists>(file, content) \<in> set entries.
             endswith file ''.sql'' \<and> directory @ dirs @ [fname] = root @ [file]
            \<and> (s, t) \<in> set (findall (scanner_pattern s) (read_text content))"
    using v(1) inner by (intro bexI [of _ "(directory @ dirs, fl)"]) simp_all
  then show "classified (get_sources_used_with_source_func fs directory s) t
          (directory @ dirs @ [fname])"
    unfolding classified_scanner .
next
  assume b: "wf_tree fs \<and> classified (get_sources_used_with_source_func fs directory s) t' p"
  then obtain root fl fname' content where v:
      "(root, fl) \<in> set (os_walk drop_sources directory fs)" "(fname', content) \<in> set fl"
      "p = root @ [fname']" "(s, t') \<in> set (findall (scanner_pattern s) (read_text content))"
    unfolding classified_scanner by auto
  from b visit_file_content [OF _ v(1,2)] obtain dirs' where
    d: "root = directory @ dirs'" "file_content fs dirs' fname' = Some content" by blast
  from findall_sound [OF v(4)] obtain pre' x post' where
    x: "read_text content = pre' @ x @ post'" "source_call s t' x" by blast
  from v(3) d x have "p = directory @ dirs' @ [fname']
           \<and> file_content fs dirs' fname' = Some content
           \<and> read_text content = pre' @ x @ post'
           \<and> source_call s t' x" by simp
  then show "\<exists>dirs' fname' stored' pre' x post'.
           p = directory @ dirs' @ [fname']
           \<and> file_content fs dirs' fname' = Some stored'
           \<and> read_text stored' = pre' @ x @ post'
           \<and> source_call s t' x" by blast
qed

theorem scanner_classifies_calls_witness:
  "file_content example_marts [''marts''] ''m.sql''
     = Some (''select * from '' @ call_text '' '' '' '' sq ''sup'' dq '' '' '' '' dq ''orders'' sq '' ''
             @ '' as o'')
   \<and> classified (get_sources_used_with_source_func example_marts [''models''] ''sup'') ''orders''
        [''models'', ''marts'', ''m.sql'']
   \<and> (\<exists>dirs' fname' stored' pre' x post'.
         [''models'', ''marts'', ''m.sql''] = [''models''] @ dirs' @ [fname']
         \<and> file_content example_marts dirs' fname' = Some stored'
         \<and> read_text stored' = pre' @ x @ post'
         \<and> source_call ''sup'' ''orders'' x)"
proof -
  let ?stored = "''select * from '' @ call_text '' '' '' '' sq ''sup'' dq '' '' '' '' dq ''orders'' sq '' ''
             @ '' as o''"
  have fc: "file_content example_marts [''marts''] ''m.sql'' = Some ?stored"
    by (simp add: file_content_def example_marts_def call_text_def sq_def dq_def)
  have rt: "read_text ?stored = ?stored"
    by (simp add: call_text_def sq_def dq_def cr_def)
  have sp: "list_all is_space '' ''" by (simp add: is_space_def)
  have q: "quote sq" "quote dq" by (simp_all add: quote_def)
  have n: "\<forall>c \<in> set ''sup''. \<not> quote c \<and> c \<noteq> CHR '')''"
          "\<forall>c \<in> set ''orders''. \<not> quote c \<and> c \<noteq> CHR '')''"
    by (simp_all add: quote_def sq_def dq_def)
  have e: "endswith ''m.sql'' ''.sql''" by (simp add: endswith_def suffix_def)
  have wf: "wf_tree example_marts" by (simp add: example_marts_def)
  note inst = scanner_classifies_calls [of "'' ''" "'' ''" "'' ''" "'' ''" "'' ''" sq dq dq sq
      "''sup''" "''orders''" example_marts "[''marts'']" "''m.sql''" ?stored "''select * from ''"
      "'' as o''" "[''models'']" "''orders''" "[''models'', ''marts'', ''m.sql'']"]
  have ns: "''sources'' \<notin> set [''marts'']" by simp
  have "classified (get_sources_used_with_source_func example_marts [''models''] ''sup'')
      ''orders'' ([''models''] @ [''marts''] @ [''m.sql''])"
    by (rule inst [THEN conjunct1, THEN mp]) (intro conjI sp q n fc rt ns e, simp)
  then have c: "classified (get_sources_used_with_source_func example_marts [''models''] ''sup'')
      ''orders'' [''models'', ''marts'', ''m.sql'']"
    by simp
  from inst wf c have "\<exists>dirs' fname' stored' pre' x post'.
         [''models'', ''marts'', ''m.sql''] = [''models''] @ dirs' @ [fname']
         \<and> file_content example_marts dirs' fname' = Some stored'
         \<and> read_text stored' = pre' @ x @ post'
         \<and> source_call ''sup'' ''orders'' x"
    by blast
  with fc c show ?thesis by blast
qed

section \<open>The staging SQL generator\<close>


















text \<open>
  Claim C3. For every standard output of the external command: when the marker
  \<open>with source\<close> occurs in it, first at index \<open>i\<close>, \<open>build_sql_query\<close> returns the output
  from index \<open>i\<close> on, stripped of surrounding whitespace, and this result starts with the
  marker; when the marker occurs nowhere, it returns \<open>None\<close>.
\<close>

theorem build_sql_query_marker:
  "(i \<le> length (run (command_line source_name table_name))
     \<and> prefix ''with source'' (drop i (run (command_line source_name table_name)))
     \<and> (\<forall>j<i. \<not> prefix ''with source'' (drop j (run (command_line source_name table_name))))
    \<longrightarrow> fst (build_sql_query run source_name table_name w)
          = Some (strip (drop i (run (command_line source_name table_name))))
        \<and> prefix ''with source'' (strip (drop i (run (command_line source_name table_name)))))
   \<and> ((\<forall>j\<le>length (run (command_line source_name table_name)).
          \<not> prefix ''with source'' (drop j (run (command_line source_name table_name))))
    \<longrightarrow> fst (build_sql_query run source_name table_name w) = None)"
proof (intro conjI impI)
  let ?out = "run (command_line source_name table_name)"
  assume h: "i \<le> length ?out \<and> prefix ''with source'' (drop i ?out)
     \<and> (\<forall>j<i. \<not> prefix ''with source'' (drop j ?out))"
  then have f: "str_find ''with source'' ?out = int i"
    using str_find_first by blast
  then show "fst (build_sql_query run source_name table_name w) = Some (strip (drop i ?out))"
    by (simp add: build_sql_query_def Let_def)
  from h obtain r where "drop i ?out = ''with source'' @ r"
    by (auto simp: prefix_def)
  moreover have "prefix ''with source'' (strip (''with source'' @ r))"
    by (rule strip_keeps_prefix) (simp_all add: is_space_def)
  ultimately show "prefix ''with source'' (strip (drop i ?out))" by simp
next
  let ?out = "run (command_line source_name table_name)"
  assume "\<forall>j\<le>length ?out. \<not> prefix ''with source'' (drop j ?out)"
  then have "str_find ''with source'' ?out = - 1" by (rule str_find_none)
  then show "fst (build_sql_query run source_name table_name w) = None"
    by (simp add: build_sql_query_def Let_def)
qed

theorem build_sql_query_marker_witness:
  "fst (build_sql_query (\<lambda>c. ''12:00 run  with source as (select 1)  '') ''sup'' ''orders''
         \<lparr>files = Map.empty, written = [], commands = [], log = []\<rparr>)
     = Some ''with source as (select 1)''
   \<and> fst (build_sql_query (\<lambda>c. ''Compilation Error'') ''sup'' ''orders''
         \<lparr>files = Map.empty, written = [], commands = [], log = []\<rparr>) = None"
proof -
  let ?w = "\<lparr>files = Map.empty, written = [], commands = [], log = []\<rparr>"
  have a: "fst (build_sql_query (\<lambda>c. ''12:00 run  with source as (select 1)  '') ''sup'' ''orders'' ?w)
     = Some ''with source as (select 1)''"
    using build_sql_query_marker [of 11 "\<lambda>c. ''12:00 run  with source as (select 1)  ''"
        "''sup''" "''orders''" ?w]
    by (simp add: strip_def is_space_def less_Suc_eq numeral_eq_Suc)
  have b: "fst (build_sql_query (\<lambda>c. ''Compilation Error'') ''sup'' ''orders'' ?w) = None"
    using build_sql_query_marker [of 0 "\<lambda>c. ''Compilation Error''" "''sup''" "''orders''" ?w]
    by (simp add: le_Suc_eq numeral_eq_Suc)
  from a b show ?thesis by simp
qed







section \<open>The rewriter\<close>




text \<open>
  Claim C10, as stated: no ref argument that the rewrite emits has stray or unbalanced
  quotes. Each replacement text is well quoted, but a later replacement may rewrite text
  inside an earlier one: in the file below the second match is replaced inside the model
  name that the first replacement has put there, and the name written for the first call
  holds two quote characters.
\<close>

theorem rewriter_nested_quotes_counterexample:
  "rewrite_content ''{{ source('{{ source(p,q) }}', 't') }} {{ source(p,q) }}''
     = ''{{ ref('source_{{ ref('source_p__q') }}__t') }} {{ ref('source_p__q') }}''"
  by code_simp

text \<open>
  Claim C10, amended. The rewrite is the sequence of the replacements of its matches, in
  order, each of all the occurrences of the matched text in the current text. For every
  match the two captured texts are non-empty and contain neither a single nor a double
  quote, and the replacement text is \<open>{{ ref('source_A__B') }}\<close> for the captured \<open>A\<close> and
  \<open>B\<close>: its only quote characters are the two single quotes around the model name.
\<close>

theorem rewriter_captures_quote_free:
  "rewrite_content content
     = fold (\<lambda>(old, new) c. str_replace old new c) (replacements content) content
   \<and> (\<forall>match \<in> set (finditer rewriter_pattern content).
        (group0 match,
         new_ref (groups rewriter_pattern match ! 0) (groups rewriter_pattern match ! 1))
          \<in> set (replacements content)
        \<and> groups rewriter_pattern match ! 0 \<noteq> []
        \<and> groups rewriter_pattern match ! 1 \<noteq> []
        \<and> (\<forall>c \<in> set (groups rewriter_pattern match ! 0). c \<noteq> sq \<and> c \<noteq> dq)
        \<and> (\<forall>c \<in> set (groups rewriter_pattern match ! 1). c \<noteq> sq \<and> c \<noteq> dq)
        \<and> new_ref (groups rewriter_pattern match ! 0) (groups rewriter_pattern match ! 1)
            = ''{{ ref('' @ [sq] @ ''source_'' @ groups rewriter_pattern match ! 0 @ ''__''
              @ groups rewriter_pattern match ! 1 @ [sq] @ '') }}''
        \<and> filter (\<lambda>c. c = sq \<or> c = dq)
             (new_ref (groups rewriter_pattern match ! 0) (groups rewriter_pattern match ! 1))
            = [sq, sq])
   \<and> length (replacements content) = length (finditer rewriter_pattern content)"
proof (intro conjI)
  show "rewrite_content content
     = fold (\<lambda>(old, new) c. str_replace old new c) (replacements content) content"
    by (simp add: rewrite_content_def replacements_def fold_map comp_def Let_def)
  show "length (replacements content) = length (finditer rewriter_pattern content)"
    by (simp add: replacements_def)
  show "\<forall>match \<in> set (finditer rewriter_pattern content).
        (group0 match,
         new_ref (groups rewriter_pattern match ! 0) (groups rewriter_pattern match ! 1))
          \<in> set (replacements content)
        \<and> groups rewriter_pattern match ! 0 \<noteq> []
        \<and> groups rewriter_pattern match ! 1 \<noteq> []
        \<and> (\<forall>c \<in> set (groups rewriter_pattern match ! 0). c \<noteq> sq \<and> c \<noteq> dq)
        \<and> (\<forall>c \<in> set (groups rewriter_pattern match ! 1). c \<noteq> sq \<and> c \<noteq> dq)
        \<and> new_ref (groups rewriter_pattern match ! 0) (groups rewriter_pattern match ! 1)
            = ''{{ ref('' @ [sq] @ ''source_'' @ groups rewriter_pattern match ! 0 @ ''__''
              @ groups rewriter_pattern match ! 1 @ [sq] @ '') }}''
        \<and> filter (\<lambda>c. c = sq \<or> c = dq)
             (new_ref (groups rewriter_pattern match ! 0) (groups rewriter_pattern match ! 1))
            = [sq, sq]"
  proof
    fix match assume m: "match \<in> set (finditer rewriter_pattern content)"
    then have 1: "(group0 match,
         new_ref (groups rewriter_pattern match ! 0) (groups rewriter_pattern match ! 1))
          \<in> set (replacements content)"
      by (auto simp: replacements_def)
    from m obtain x where "match_here rewriter_pattern x = Some match"
      unfolding finditer_def by (auto dest: finditer_skip_matches)
    then have "list_all2 seg_ok rewriter_pattern match" by (auto dest: match_here_sound)
    then obtain a b where g: "groups rewriter_pattern match = [a, b]" "a \<noteq> []" "b \<noteq> []"
        "list_all not_quote a" "list_all not_quote b"
      using rewriter_groups by blast
    have 2: "filter (\<lambda>c. c = sq \<or> c = dq)
             (new_ref (groups rewriter_pattern match ! 0) (groups rewriter_pattern match ! 1))
            = [sq, sq]"
      using new_ref_quotes [OF g(4,5)] by (simp add: g(1) quote_def [abs_def])
    have 3: "new_ref (groups rewriter_pattern match ! 0) (groups rewriter_pattern match ! 1)
            = ''{{ ref('' @ [sq] @ ''source_'' @ groups rewriter_pattern match ! 0 @ ''__''
              @ groups rewriter_pattern match ! 1 @ [sq] @ '') }}''"
      by (simp add: new_ref_def sq_def)
    from g have 4: "groups rewriter_pattern match ! 0 \<noteq> []"
        "groups rewriter_pattern match ! 1 \<noteq> []"
      by simp_all
    from g have 5: "\<forall>c \<in> set (groups rewriter_pattern match ! 0). c \<noteq> sq \<and> c \<noteq> dq"
        "\<forall>c \<in> set (groups rewriter_pattern match ! 1). c \<noteq> sq \<and> c \<noteq> dq"
      by (auto simp: list_all_iff not_quote_def quote_def)
    from 1 2 3 4 5
    show "(group0 match,
         new_ref (groups rewriter_pattern match ! 0) (groups rewriter_pattern match ! 1))
          \<in> set (replacements content)
        \<and> groups rewriter_pattern match ! 0 \<noteq> []
        \<and> groups rewriter_pattern match ! 1 \<noteq> []
        \<and> (\<forall>c \<in> set (groups rewriter_pattern match ! 0). c \<noteq> sq \<and> c \<noteq> dq)
        \<and> (\<forall>c \<in> set (groups rewriter_pattern match ! 1). c \<noteq> sq \<and> c \<noteq> dq)
        \<and> new_ref (groups rewriter_pattern match ! 0) (groups rewriter_pattern match ! 1)
            = ''{{ ref('' @ [sq] @ ''source_'' @ groups rewriter_pattern match ! 0 @ ''__''
              @ groups rewriter_pattern match ! 1 @ [sq] @ '') }}''
        \<and> filter (\<lambda>c. c = sq \<or> c = dq)
             (new_ref (groups rewriter_pattern match ! 0) (groups rewriter_pattern match ! 1))
            = [sq, sq]"
      by (intro conjI)
  qed
qed

theorem rewriter_captures_quote_free_witness:
  "[''{{'', '' '', ''source'', [], ''('', [], [], [sq], ''sup'', [], [sq], [], '','', [],
       [], [sq], ''clicks'', [], [sq], [], '')'', '' '', ''}}'']
     \<in> set (finditer rewriter_pattern ''SELECT * FROM {{ source('sup','clicks') }}'')
   \<and> (''{{ source('sup','clicks') }}'', ''{{ ref('source_sup__clicks') }}'')
        \<in> set (replacements ''SELECT * FROM {{ source('sup','clicks') }}'')
   \<and> new_ref ''sup'' ''clicks'' = ''{{ ref('' @ [sq] @ ''source_sup__clicks'' @ [sq] @ '') }}''
   \<and> filter (\<lambda>c. c = sq \<or> c = dq) (new_ref ''sup'' ''clicks'') = [sq, sq]"
proof -
  let ?m = "[''{{'', '' '', ''source'', [], ''('', [], [], [sq], ''sup'', [], [sq], [], '','', [],
       [], [sq], ''clicks'', [], [sq], [], '')'', '' '', ''}}'']"
  have m: "?m \<in> set (finditer rewriter_pattern ''SELECT * FROM {{ source('sup','clicks') }}'')"
    by (simp add: example_finditer)
  have g: "groups rewriter_pattern ?m = [''sup'', ''clicks'']"
    by (simp add: groups_def rewriter_pattern_def)
  have g0: "group0 ?m = ''{{ source('sup','clicks') }}''"
    by (simp add: group0_def sq_def)
  have n: "new_ref ''sup'' ''clicks'' = ''{{ ref('source_sup__clicks') }}''"
    by (simp add: new_ref_def sq_def)
  from rewriter_captures_quote_free [of "''SELECT * FROM {{ source('sup','clicks') }}''"] m
  have "(group0 ?m, new_ref (groups rewriter_pattern ?m ! 0) (groups rewriter_pattern ?m ! 1))
          \<in> set (replacements ''SELECT * FROM {{ source('sup','clicks') }}'')
        \<and> filter (\<lambda>c. c = sq \<or> c = dq)
             (new_ref (groups rewriter_pattern ?m ! 0) (groups rewriter_pattern ?m ! 1))
            = [sq, sq]"
    by blast
  then have "(''{{ source('sup','clicks') }}'', ''{{ ref('source_sup__clicks') }}'')
        \<in> set (replacements ''SELECT * FROM {{ source('sup','clicks') }}'')
      \<and> filter (\<lambda>c. c = sq \<or> c = dq) (new_ref ''sup'' ''clicks'') = [sq, sq]"
    by (simp only: g g0 n nth_Cons_0 nth_Cons_Suc One_nat_def)
  moreover have "new_ref ''sup'' ''clicks''
      = ''{{ ref('' @ [sq] @ ''source_sup__clicks'' @ [sq] @ '') }}''"
    by (simp add: new_ref_def sq_def)
  ultimately show ?thesis using m by blast
qed

text \<open>
  Claim C1. The rewriter replaces every occurrence of \<open>{{ source(<arg1>, <arg2>) }}\<close> by
  its own \<open>{{ ref('source_<arg1>__<arg2>') }}\<close>, also when a file holds several occurrences.
  The code does so for each of two unquoted calls alone, but not for the two in one file: the
  first group runs on to the last comma, the whole text is one match, and the result is not
  the two ref expressions.
\<close>

theorem rewriter_merges_unquoted_calls:
  "rewrite_content ''{{ source(a, b) }}'' = ''{{ ref('source_a__b') }}''
   \<and> rewrite_content ''{{ source(c, d) }}'' = ''{{ ref('source_c__d') }}''
   \<and> rewrite_content ''{{ source(a, b) }} {{ source(c, d) }}''
       = ''{{ ref('source_a, b) }} {{ source(c__d') }}''
   \<and> rewrite_content ''{{ source(a, b) }} {{ source(c, d) }}''
       \<noteq> ''{{ ref('source_a__b') }} {{ ref('source_c__d') }}''"
proof -
  have 1: "rewrite_content ''{{ source(a, b) }}'' = ''{{ ref('source_a__b') }}''"
    by code_simp
  have 2: "rewrite_content ''{{ source(c, d) }}'' = ''{{ ref('source_c__d') }}''"
    by code_simp
  have 3: "rewrite_content ''{{ source(a, b) }} {{ source(c, d) }}''
       = ''{{ ref('source_a, b) }} {{ source(c__d') }}''"
    by code_simp
  from 1 2 3 show ?thesis by simp
qed






















end
